theory Spec2Isabelle
  imports Main
begin

section \<open>The FASTQ reader of fastqreader.cpp\<close>

text \<open>
  A shallow embedding of \<^verbatim>\<open>src/src/fastqreader.cpp\<close>. Member functions take the object
  and return it updated. A read outside an array or string (undefined behaviour in C++) and
  the process exit of \<^verbatim>\<open>error_exit\<close> are values of the type \<open>error\<close>; a call that never
  returns is the value \<open>None\<close> of the outer \<open>option\<close>.
\<close>

subsection \<open>Bytes, errors and the byte source\<close>

abbreviation LF :: char where "LF \<equiv> CHR 0x0A"
abbreviation CR :: char where "CR \<equiv> CHR 0x0D"

text \<open>\<^verbatim>\<open>#define FQ_BUF_SIZE (1<<20)\<close>\<close>

definition FQ_BUF_SIZE :: nat where
  "FQ_BUF_SIZE = 1048576"

datatype error =
    OutOfBounds      \<comment> \<open>a read before the first element of an array or of an empty string\<close>
  | NullPointer      \<comment> \<open>a call through a null handle or reader\<close>
  | FatalExit string \<comment> \<open>\<^verbatim>\<open>error_exit(msg)\<close>: the process ends with the message\<close>

text \<open>
  The handle behind \<^verbatim>\<open>FILE*\<close> and \<^verbatim>\<open>gzFile\<close>: the bytes not yet delivered and the
  end-of-file indicator. For a compressed file the bytes are the decompressed ones. Both
  \<^verbatim>\<open>fread\<close> and \<^verbatim>\<open>gzread\<close> deliver up to \<open>n\<close> bytes and set the indicator only when they
  come up with fewer than requested. A null handle is \<open>None\<close>.
\<close>

record byte_source =
  remaining :: string
  eof_ind :: bool

definition fread :: "byte_source \<Rightarrow> nat \<Rightarrow> string \<times> byte_source" where
  "fread f n =
     (take n (remaining f),
      \<lparr>remaining = drop n (remaining f),
       eof_ind = (eof_ind f \<or> length (remaining f) < n)\<rparr>)"

definition feof :: "byte_source option \<Rightarrow> bool" where
  "feof f = (case f of None \<Rightarrow> False | Some h \<Rightarrow> eof_ind h)"

text \<open>\<^verbatim>\<open>gzread\<close> returns -1 on a null handle and leaves the buffer alone.\<close>

definition gzread :: "byte_source option \<Rightarrow> nat \<Rightarrow> int \<times> string option \<times> byte_source option" where
  "gzread z n =
     (case z of
        None \<Rightarrow> (- 1, None, None)
      | Some h \<Rightarrow> (case fread h n of (bytes, h') \<Rightarrow> (int (length bytes), Some bytes, Some h')))"

definition gzeof :: "byte_source option \<Rightarrow> bool" where
  "gzeof z = (case z of None \<Rightarrow> False | Some h \<Rightarrow> eof_ind h)"

subsection \<open>The scan context and the reader object\<close>

text \<open>
  Modelled from the spec: the header \<^verbatim>\<open>fastqreader.h\<close> is not part of the sources at hand. It
  declares \<^verbatim>\<open>fq_context\<close> (fields \<^verbatim>\<open>buf\<close>, \<^verbatim>\<open>len\<close>, \<^verbatim>\<open>start\<close>, \<^verbatim>\<open>end\<close>, \<^verbatim>\<open>partial\<close>), the
  scanner states and the members of the reader; the spec names the scanning state as the
  initial one and starts the accumulator empty. The fields carry the prefix \<open>ctx_\<close> here
  (\<open>end\<close> is reserved).

  The buffer \<^verbatim>\<open>mBuf\<close> has capacity \<^verbatim>\<open>FQ_BUF_SIZE\<close>; the model keeps its valid prefix, the
  \<^verbatim>\<open>mBufDataLen\<close> bytes of the last refill, which is all the scanner reads
  (\<open>ctx_end < ctx_len\<close>). \<^verbatim>\<open>ctx.buf\<close> points to the same array (line 20), so a refill
  writes both views.
\<close>

record fq_context =
  ctx_buf :: string
  ctx_len :: nat
  ctx_start :: nat
  ctx_end :: nat
  ctx_partial :: string

datatype scan_state = INITIAL | NEW_CHUNK | DONE

record FastqReader =
  mFilename :: string
  mZipFile :: "byte_source option"
  mZipped :: bool
  mFile :: "byte_source option"
  mPhred64 :: bool
  mHasQuality :: bool
  mBuf :: string
  mBufDataLen :: int
  mBufUsedLen :: int
  mHasNoLineBreakAtEnd :: bool
  ctx :: fq_context
  state :: scan_state

text \<open>The arguments handed to the constructor of \<^verbatim>\<open>Read\<close> and of \<^verbatim>\<open>ReadPair\<close>.\<close>

datatype Read = Read (mName: string) (mSeq: string) (mStrand: string) (mQuality: string) bool

datatype ReadPair = ReadPair Read Read

subsection \<open>readToBuf\<close>

text \<open>
  Lines 33-51. After the read, a chunk shorter than the capacity makes the code look at
  \<^verbatim>\<open>mBuf[mBufDataLen-1]\<close>; with \<^verbatim>\<open>mBufDataLen\<close> at 0 (or -1) that index is negative.
\<close>

definition readToBuf :: "FastqReader \<Rightarrow> error + FastqReader" where
  "readToBuf r =
     (case (if mZipped r then
              (case gzread (mZipFile r) FQ_BUF_SIZE of
                 (n, bytes, z) \<Rightarrow>
                   Inr (r\<lparr>mZipFile := z,
                          mBuf := (case bytes of None \<Rightarrow> mBuf r | Some b \<Rightarrow> b),
                          mBufDataLen := n\<rparr>))
            else
              (case mFile r of
                 None \<Rightarrow> Inl NullPointer
               | Some f \<Rightarrow>
                   (case fread f FQ_BUF_SIZE of
                      (bytes, f') \<Rightarrow>
                        Inr (r\<lparr>mFile := Some f', mBuf := bytes,
                               mBufDataLen := int (length bytes)\<rparr>)))) of
        Inl e \<Rightarrow> Inl e
      | Inr r1 \<Rightarrow>
          (let r2 = r1\<lparr>mBufUsedLen := 0\<rparr>;
               fin = (\<lambda>r3. r3\<lparr>ctx := (ctx r3)\<lparr>ctx_buf := mBuf r3,
                                              ctx_len := nat (mBufDataLen r3),
                                              ctx_start := 0, ctx_end := 0\<rparr>\<rparr>)
           in if mBufDataLen r2 < int FQ_BUF_SIZE then
                (if mBufDataLen r2 - 1 < 0 then Inl OutOfBounds
                 else if mBuf r2 ! nat (mBufDataLen r2 - 1) \<noteq> LF
                      then Inr (fin (r2\<lparr>mHasNoLineBreakAtEnd := True\<rparr>))
                      else Inr (fin r2))
              else Inr (fin r2)))"

subsection \<open>scan_buf and next\<close>

text \<open>Lines 87-91: advance \<^verbatim>\<open>ctx.end\<close> to the next line feed or to \<^verbatim>\<open>ctx.len\<close>.\<close>

function scan_buf :: "fq_context \<Rightarrow> bool \<times> fq_context" where
  "scan_buf c =
     (if ctx_end c < ctx_len c \<and> ctx_buf c ! ctx_end c \<noteq> LF
      then scan_buf (c\<lparr>ctx_end := ctx_end c + 1\<rparr>)
      else (ctx_end c = ctx_len c, c))"
  by pat_completeness auto
termination
  by (relation "measure (\<lambda>c. ctx_len c - ctx_end c)") auto

declare scan_buf.simps [simp del]

text \<open>Lines 93-105; the result is (line, complete, context).\<close>

definition fq_next :: "fq_context \<Rightarrow> string \<times> bool \<times> fq_context" where
  "fq_next c0 =
     (case scan_buf c0 of
        (r, c) \<Rightarrow>
          (let line = take (ctx_end c - ctx_start c) (drop (ctx_start c) (ctx_buf c))
           in if r then (line, False, c)
              else (line, True, c\<lparr>ctx_start := ctx_end c + 1, ctx_end := ctx_end c + 1\<rparr>)))"

subsection \<open>eof and getLine\<close>

definition eof :: "FastqReader \<Rightarrow> bool" where
  "eof r = (if mZipped r then gzeof (mZipFile r) else feof (mFile r))"

text \<open>The bytes the handle in use still holds; it orders the refills of \<open>getLine\<close>.\<close>

definition source_left :: "FastqReader \<Rightarrow> nat" where
  "source_left r =
     (case (if mZipped r then mZipFile r else mFile r) of
        None \<Rightarrow> 0 | Some h \<Rightarrow> length (remaining h))"

fun state_rank :: "scan_state \<Rightarrow> nat" where
  "state_rank INITIAL = 2"
| "state_rank NEW_CHUNK = 1"
| "state_rank DONE = 0"

lemma readToBuf_source_left:
  assumes "readToBuf r = Inr r'"
  shows "source_left r' < source_left r \<and> mZipped r' = mZipped r"
  using assms
  by (auto simp: readToBuf_def source_left_def gzread_def fread_def Let_def FQ_BUF_SIZE_def
           split: if_splits option.splits prod.splits sum.splits)

lemma source_left_state [simp]: "source_left (r\<lparr>state := s\<rparr>) = source_left r"
  by (simp add: source_left_def)

lemma source_left_ctx [simp]: "source_left (r\<lparr>ctx := c\<rparr>) = source_left r"
  by (simp add: source_left_def)

text \<open>
  Lines 107-141. \<^verbatim>\<open>ctx.partial.back()\<close> on line 116 reads the last character of the
  accumulated line; on an empty string there is none. Leaving the loop in state \<^verbatim>\<open>DONE\<close>
  returns \<^verbatim>\<open>string()\<close>.
\<close>

function getLine :: "FastqReader \<Rightarrow> error + (string \<times> FastqReader)" where
  "getLine r =
     (case state r of
        DONE \<Rightarrow> Inr ([], r)
      | INITIAL \<Rightarrow>
          (case fq_next (ctx r) of
             (result, c, c1) \<Rightarrow>
               (let c2 = c1\<lparr>ctx_partial := ctx_partial c1 @ result\<rparr>
                in if c then
                     (if ctx_partial c2 = [] then Inl OutOfBounds
                      else
                        (let c3 = (if last (ctx_partial c2) = CR
                                   then c2\<lparr>ctx_partial := butlast (ctx_partial c2)\<rparr>
                                   else c2)
                         in Inr (ctx_partial c3, r\<lparr>ctx := c3\<lparr>ctx_partial := []\<rparr>\<rparr>)))
                   else getLine (r\<lparr>ctx := c2, state := NEW_CHUNK\<rparr>)))
      | NEW_CHUNK \<Rightarrow>
          (if ctx_len (ctx r) < FQ_BUF_SIZE \<or> ctx_len (ctx r) = 0 \<or> eof r
           then getLine (r\<lparr>state := DONE\<rparr>)
           else (case readToBuf r of
                   Inl e \<Rightarrow> Inl e
                 | Inr r' \<Rightarrow> getLine (r'\<lparr>state := INITIAL\<rparr>))))"
  by pat_completeness auto
termination
proof (relation "measure (\<lambda>r. 3 * source_left r + state_rank (state r))", goal_cases)
  case 1
  show ?case by simp
next
  case (2 r x xa y xb ya)
  then show ?case by simp
next
  case (3 r)
  then show ?case by simp
next
  case (4 r r')
  then have "source_left r' < source_left r"
    using readToBuf_source_left by blast
  with 4 show ?case by simp
qed

declare getLine.simps [simp del]

subsection \<open>read\<close>

text \<open>
  The loop of lines 165-167. Nothing in it is bounded, so it is a partial function: \<open>None\<close>
  is the call that never leaves the loop. \<^verbatim>\<open>mBufUsedLen\<close> is written by the constructor and
  by \<open>readToBuf\<close> only (both store 0).
\<close>

partial_function (option) skip_loop ::
    "string \<Rightarrow> FastqReader \<Rightarrow> (error + (string \<times> FastqReader)) option" where
  "skip_loop name r =
     (if (name = [] \<and> \<not> (mBufUsedLen r \<ge> mBufDataLen r \<and> eof r))
         \<or> (name \<noteq> [] \<and> name ! 0 \<noteq> CHR ''@'')
      then (case getLine r of
              Inl e \<Rightarrow> Some (Inl e)
            | Inr (name', r') \<Rightarrow> skip_loop name' r')
      else Some (Inr (name, r)))"

text \<open>Lines 152-194. The result is the record (or null, \<open>None\<close>) and the reader after the call.\<close>

definition read :: "FastqReader \<Rightarrow> (error + (Read option \<times> FastqReader)) option" where
  "read r =
     (if mZipped r \<and> mZipFile r = None then Some (Inr (None, r))
      else if mBufUsedLen r \<ge> mBufDataLen r \<and> eof r then Some (Inr (None, r))
      else
        (case getLine r of
           Inl e \<Rightarrow> Some (Inl e)
         | Inr (name0, r1) \<Rightarrow>
             if name0 = [] then Some (Inr (None, r1))
             else
               (case skip_loop name0 r1 of
                  None \<Rightarrow> None
                | Some (Inl e) \<Rightarrow> Some (Inl e)
                | Some (Inr (name, r2)) \<Rightarrow>
                    if name = [] then Some (Inr (None, r2))
                    else
                      (case getLine r2 of
                         Inl e \<Rightarrow> Some (Inl e)
                       | Inr (sequence, r3) \<Rightarrow>
                           (case getLine r3 of
                              Inl e \<Rightarrow> Some (Inl e)
                            | Inr (strand, r4) \<Rightarrow>
                                if \<not> mHasQuality r4 then
                                  (let quality = replicate (length sequence) CHR ''K''
                                   in Some (Inr (Some (Read name sequence strand quality
                                                        (mPhred64 r4)), r4)))
                                else
                                  (case getLine r4 of
                                     Inl e \<Rightarrow> Some (Inl e)
                                   | Inr (quality, r5) \<Rightarrow>
                                       if length quality \<noteq> length sequence
                                       then Some (Inr (None, r5))
                                       else Some (Inr (Some (Read name sequence strand quality
                                                             (mPhred64 r5)), r5))))))))"

subsection \<open>Construction\<close>

text \<open>
  Modelled from the spec: \<^verbatim>\<open>util.h\<close> (\<^verbatim>\<open>ends_with\<close>, \<^verbatim>\<open>error_exit\<close>) and the C library are not
  part of the sources at hand. \<open>ends_with\<close> is the suffix test its name and the spec's
  "classification of path (by suffix)" describe. The files that can be opened are a map from
  paths to contents; a path outside it makes \<^verbatim>\<open>fopen\<close> and \<^verbatim>\<open>gzopen\<close> return null.
\<close>

definition ends_with :: "string \<Rightarrow> string \<Rightarrow> bool" where
  "ends_with s e = (length e \<le> length s \<and> drop (length s - length e) s = e)"

definition open_source :: "string \<Rightarrow> byte_source" where
  "open_source bytes = \<lparr>remaining = bytes, eof_ind = False\<rparr>"

text \<open>Lines 53-71. \<^verbatim>\<open>gzrewind\<close> leaves a handle that was just opened where it is.\<close>

definition init :: "(string \<rightharpoonup> string) \<Rightarrow> string \<Rightarrow> FastqReader \<Rightarrow> error + FastqReader" where
  "init fs stdin r =
     (if ends_with (mFilename r) ''.gz'' then
        readToBuf (r\<lparr>mZipFile := map_option open_source (fs (mFilename r)), mZipped := True\<rparr>)
      else
        (let r1 = (if mFilename r = ''/dev/stdin''
                   then r\<lparr>mFile := Some (open_source stdin)\<rparr>
                   else r\<lparr>mFile := map_option open_source (fs (mFilename r))\<rparr>)
         in if mFile r1 = None
            then Inl (FatalExit (''Failed to open file: '' @ mFilename r1))
            else readToBuf (r1\<lparr>mZipped := False\<rparr>)))"

text \<open>Lines 7-22.\<close>

definition FastqReader_new ::
    "(string \<rightharpoonup> string) \<Rightarrow> string \<Rightarrow> string \<Rightarrow> bool \<Rightarrow> bool \<Rightarrow> error + FastqReader" where
  "FastqReader_new fs stdin filename hasQuality phred64 =
     init fs stdin
       \<lparr>mFilename = filename, mZipFile = None, mZipped = False, mFile = None,
        mPhred64 = phred64, mHasQuality = hasQuality, mBuf = [],
        mBufDataLen = 0, mBufUsedLen = 0, mHasNoLineBreakAtEnd = False,
        ctx = \<lparr>ctx_buf = [], ctx_len = 0, ctx_start = 0, ctx_end = 0, ctx_partial = []\<rparr>,
        state = INITIAL\<rparr>"

subsection \<open>The paired reader\<close>

record FastqReaderPair =
  mLeft :: FastqReader
  mRight :: "FastqReader option"
  mInterleaved :: bool

text \<open>Lines 265-272.\<close>

definition FastqReaderPair_new ::
    "(string \<rightharpoonup> string) \<Rightarrow> string \<Rightarrow> string \<Rightarrow> string \<Rightarrow> bool \<Rightarrow> bool \<Rightarrow> bool
       \<Rightarrow> error + FastqReaderPair" where
  "FastqReaderPair_new fs stdin leftName rightName hasQuality phred64 interleaved =
     (case FastqReader_new fs stdin leftName hasQuality phred64 of
        Inl e \<Rightarrow> Inl e
      | Inr l \<Rightarrow>
          if interleaved
          then Inr \<lparr>mLeft = l, mRight = None, mInterleaved = interleaved\<rparr>
          else (case FastqReader_new fs stdin rightName hasQuality phred64 of
                  Inl e \<Rightarrow> Inl e
                | Inr r \<Rightarrow> Inr \<lparr>mLeft = l, mRight = Some r, mInterleaved = interleaved\<rparr>))"

text \<open>Lines 292-296: a pair only when both records are there.\<close>

definition pair_of :: "Read option \<Rightarrow> Read option \<Rightarrow> ReadPair option" where
  "pair_of l r =
     (case l of
        None \<Rightarrow> None
      | Some a \<Rightarrow> (case r of None \<Rightarrow> None | Some b \<Rightarrow> Some (ReadPair a b)))"

text \<open>Lines 285-297, \<^verbatim>\<open>FastqReaderPair::read\<close>.\<close>

definition pair_read ::
    "FastqReaderPair \<Rightarrow> (error + (ReadPair option \<times> FastqReaderPair)) option" where
  "pair_read p =
     (case read (mLeft p) of
        None \<Rightarrow> None
      | Some (Inl e) \<Rightarrow> Some (Inl e)
      | Some (Inr (l, left1)) \<Rightarrow>
          if mInterleaved p then
            (case read left1 of
               None \<Rightarrow> None
             | Some (Inl e) \<Rightarrow> Some (Inl e)
             | Some (Inr (r, left2)) \<Rightarrow> Some (Inr (pair_of l r, p\<lparr>mLeft := left2\<rparr>)))
          else
            (case mRight p of
               None \<Rightarrow> Some (Inl NullPointer)
             | Some right \<Rightarrow>
                 (case read right of
                    None \<Rightarrow> None
                  | Some (Inl e) \<Rightarrow> Some (Inl e)
                  | Some (Inr (r, right1)) \<Rightarrow>
                      Some (Inr (pair_of l r, p\<lparr>mLeft := left1, mRight := Some right1\<rparr>)))))"

subsection \<open>Successive calls\<close>

text \<open>What a caller sees who calls \<^verbatim>\<open>read()\<close> \<open>n\<close> times in a row: the results in order.\<close>

fun reads :: "nat \<Rightarrow> FastqReader \<Rightarrow> (error + (Read option list \<times> FastqReader)) option" where
  "reads 0 r = Some (Inr ([], r))"
| "reads (Suc n) r =
     (case read r of
        None \<Rightarrow> None
      | Some (Inl e) \<Rightarrow> Some (Inl e)
      | Some (Inr (x, r1)) \<Rightarrow>
          (case reads n r1 of
             None \<Rightarrow> None
           | Some (Inl e) \<Rightarrow> Some (Inl e)
           | Some (Inr (xs, r2)) \<Rightarrow> Some (Inr (x # xs, r2))))"

fun pair_reads ::
    "nat \<Rightarrow> FastqReaderPair \<Rightarrow> (error + (ReadPair option list \<times> FastqReaderPair)) option" where
  "pair_reads 0 p = Some (Inr ([], p))"
| "pair_reads (Suc n) p =
     (case pair_read p of
        None \<Rightarrow> None
      | Some (Inl e) \<Rightarrow> Some (Inl e)
      | Some (Inr (x, p1)) \<Rightarrow>
          (case pair_reads n p1 of
             None \<Rightarrow> None
           | Some (Inl e) \<Rightarrow> Some (Inl e)
           | Some (Inr (xs, p2)) \<Rightarrow> Some (Inr (x # xs, p2))))"

subsection \<open>The input still to be read\<close>

text \<open>
  The handle in use, the bytes it still holds, and the bytes the reader has not yet handed
  out as lines: the unread rest of the buffer followed by the rest of the source.
\<close>

definition source_handle :: "FastqReader \<Rightarrow> byte_source option" where
  "source_handle r = (if mZipped r then mZipFile r else mFile r)"

definition source_bytes :: "FastqReader \<Rightarrow> string" where
  "source_bytes r = (case source_handle r of None \<Rightarrow> [] | Some h \<Rightarrow> remaining h)"

definition pending :: "FastqReader \<Rightarrow> string" where
  "pending r = drop (ctx_start (ctx r)) (ctx_buf (ctx r)) @ source_bytes r"

text \<open>
  The states in which \<open>getLine\<close> is entered while lines remain: the scanner is in its
  initial state with both cursors at the start of the next line, the buffer holds the last
  chunk, a chunk shorter than the capacity was the last one of the source, and the
  end-of-file indicator is raised only after such a chunk. \<open>line_start\<close> adds that no line
  is half assembled. The constructor establishes it (\<open>FastqReader_new_line_start\<close>) and a
  completed line keeps it.
\<close>

definition scanning :: "FastqReader \<Rightarrow> bool" where
  "scanning r =
     (state r = INITIAL
      \<and> ctx_start (ctx r) = ctx_end (ctx r)
      \<and> ctx_end (ctx r) \<le> ctx_len (ctx r)
      \<and> ctx_len (ctx r) = length (ctx_buf (ctx r))
      \<and> ctx_len (ctx r) \<le> FQ_BUF_SIZE
      \<and> source_handle r \<noteq> None
      \<and> (ctx_len (ctx r) = FQ_BUF_SIZE \<or> source_bytes r = [])
      \<and> (ctx_len (ctx r) < FQ_BUF_SIZE \<or> eof r = False))"

definition line_start :: "FastqReader \<Rightarrow> bool" where
  "line_start r = (scanning r \<and> ctx_partial (ctx r) = [])"

subsection \<open>A caller\<close>

text \<open>
  A caller that opens the file \<open>in.fq\<close> holding the given bytes and calls \<^verbatim>\<open>read()\<close>
  \<open>n\<close> times (\<open>read_file\<close>), or calls \<open>getLine\<close> once (\<open>first_line\<close>).
\<close>

definition read_file :: "string \<Rightarrow> bool \<Rightarrow> bool \<Rightarrow> nat \<Rightarrow> (error + Read option list) option" where
  "read_file bytes hasQuality phred64 n =
     (case FastqReader_new [''in.fq'' \<mapsto> bytes] [] ''in.fq'' hasQuality phred64 of
        Inl e \<Rightarrow> Some (Inl e)
      | Inr r \<Rightarrow>
          (case reads n r of
             None \<Rightarrow> None
           | Some (Inl e) \<Rightarrow> Some (Inl e)
           | Some (Inr (xs, r')) \<Rightarrow> Some (Inr xs)))"

definition first_line :: "string \<Rightarrow> error + string" where
  "first_line bytes =
     (case FastqReader_new [''in.fq'' \<mapsto> bytes] [] ''in.fq'' True False of
        Inl e \<Rightarrow> Inl e
      | Inr r \<Rightarrow> (case getLine r of Inl e \<Rightarrow> Inl e | Inr (l, r') \<Rightarrow> Inr l))"

text \<open>The text of a well-formed file that holds the given records, four lines each.\<close>

fun fastq_text :: "Read list \<Rightarrow> string" where
  "fastq_text [] = []"
| "fastq_text (Read name sequence strand quality phred64 # rs) =
     name @ [LF] @ sequence @ [LF] @ strand @ [LF] @ quality @ [LF] @ fastq_text rs"

text \<open>Consecutive results taken two by two, as the interleaved mode pairs them.\<close>

fun pairs_of :: "Read option list \<Rightarrow> ReadPair option list" where
  "pairs_of (a # b # xs) = pair_of a b # pairs_of xs"
| "pairs_of _ = []"

section \<open>Properties\<close>

subsection \<open>Evaluation on concrete files\<close>

lemmas new_defs = FastqReader_new_def init_def ends_with_def open_source_def readToBuf_def
  fread_def gzread_def FQ_BUF_SIZE_def Let_def

lemmas line_defs = fq_next_def scan_buf.simps

lemmas read_defs = read_def eof_def feof_def gzeof_def skip_loop.simps

lemma FQ_BUF_SIZE_pos [simp]: "0 < FQ_BUF_SIZE"
  by (simp add: FQ_BUF_SIZE_def)

lemma getLine_DONE: "state r = DONE \<Longrightarrow> getLine r = Inr ([], r)"
  by (subst getLine.simps) simp

subsection \<open>What a call leaves alone\<close>

text \<open>The configuration of the reader is not touched by refills, lines or skipping.\<close>

lemma readToBuf_config:
  assumes "readToBuf r = Inr r'"
  shows "mHasQuality r' = mHasQuality r \<and> mPhred64 r' = mPhred64 r \<and> mZipped r' = mZipped r"
  using assms
  by (auto simp: readToBuf_def gzread_def fread_def Let_def
           split: if_splits option.splits prod.splits sum.splits)

lemma getLine_config:
  "getLine r = Inr (l, r') \<Longrightarrow>
     mHasQuality r' = mHasQuality r \<and> mPhred64 r' = mPhred64 r \<and> mZipped r' = mZipped r"
proof (induction r arbitrary: l r' rule: getLine.induct)
  case (1 r)
  show ?case
  proof (cases "state r")
    case DONE
    with 1(4) show ?thesis by (simp add: getLine_DONE)
  next
    case INITIAL
    obtain result c c1 where n: "fq_next (ctx r) = (result, c, c1)"
      by (cases "fq_next (ctx r)") auto
    show ?thesis
    proof (cases c)
      case True
      with 1(4) INITIAL n show ?thesis
        by (subst (asm) getLine.simps) (auto simp: Let_def split: if_splits)
    next
      case False
      with 1(4) INITIAL n
      have "getLine (r\<lparr>ctx := c1\<lparr>ctx_partial := ctx_partial c1 @ result\<rparr>, state := NEW_CHUNK\<rparr>) = Inr (l, r')"
        by (subst (asm) getLine.simps) (simp add: Let_def)
      from 1(1) [OF INITIAL n [symmetric] refl refl _ this] False
      show ?thesis by simp
    qed
  next
    case NEW_CHUNK
    show ?thesis
    proof (cases "ctx_len (ctx r) < FQ_BUF_SIZE \<or> ctx_len (ctx r) = 0 \<or> eof r")
      case True
      with 1(4) NEW_CHUNK have "getLine (r\<lparr>state := DONE\<rparr>) = Inr (l, r')"
        by (subst (asm) getLine.simps) simp
      then show ?thesis by (simp add: getLine_DONE) auto
    next
      case False
      with 1(4) NEW_CHUNK obtain q where q: "readToBuf r = Inr q"
        and g: "getLine (q\<lparr>state := INITIAL\<rparr>) = Inr (l, r')"
        by (subst (asm) getLine.simps) (auto split: sum.splits)
      from 1(3) [OF NEW_CHUNK False q g] readToBuf_config [OF q]
      show ?thesis by simp
    qed
  qed
qed


lemma skip_loop_config_all:
  assumes "skip_loop name r = Some y"
  shows "\<forall>n' r'. y = Inr (n', r') \<longrightarrow>
        mHasQuality r' = mHasQuality r \<and> mPhred64 r' = mPhred64 r \<and> mZipped r' = mZipped r"
proof (rule skip_loop.raw_induct
    [where P = "\<lambda>n r y. \<forall>n' r'. y = Inr (n', r') \<longrightarrow>
        mHasQuality r' = mHasQuality r \<and> mPhred64 r' = mPhred64 r \<and> mZipped r' = mZipped r",
     OF _ assms])
  fix loop n r y
  assume IH: "\<And>n r y. loop n r = Some y \<Longrightarrow> \<forall>n' r'. y = Inr (n', r') \<longrightarrow>
        mHasQuality r' = mHasQuality r \<and> mPhred64 r' = mPhred64 r \<and> mZipped r' = mZipped r"
    and body: "(if (n = [] \<and> \<not> (mBufUsedLen r \<ge> mBufDataLen r \<and> eof r))
                   \<or> (n \<noteq> [] \<and> n ! 0 \<noteq> CHR ''@'')
                then (case getLine r of
                        Inl e \<Rightarrow> Some (Inl e)
                      | Inr (name', r') \<Rightarrow> loop name' r')
                else Some (Inr (n, r))) = Some y"
  show "\<forall>n' r'. y = Inr (n', r') \<longrightarrow>
        mHasQuality r' = mHasQuality r \<and> mPhred64 r' = mPhred64 r \<and> mZipped r' = mZipped r"
  proof (intro allI impI)
    fix n' r'
    assume y: "y = Inr (n', r')"
    show "mHasQuality r' = mHasQuality r \<and> mPhred64 r' = mPhred64 r \<and> mZipped r' = mZipped r"
    proof (cases "(n = [] \<and> \<not> (mBufUsedLen r \<ge> mBufDataLen r \<and> eof r))
                     \<or> (n \<noteq> [] \<and> n ! 0 \<noteq> CHR ''@'')")
      case True
      with body y obtain m q where g: "getLine r = Inr (m, q)"
        and l: "loop m q = Some (Inr (n', r'))"
        by (auto split: sum.splits)
      from IH [OF l] getLine_config [OF g] show ?thesis by simp
    next
      case False
      with body y show ?thesis by auto
    qed
  qed
qed

lemma skip_loop_config:
  assumes "skip_loop name r = Some (Inr (name', r'))"
  shows "mHasQuality r' = mHasQuality r \<and> mPhred64 r' = mPhred64 r \<and> mZipped r' = mZipped r"
  using skip_loop_config_all [OF assms] by simp

subsection \<open>The refill\<close>

text \<open>
  A refill that succeeds delivered at least one byte, and it only ever raises the flag: the
  flag afterwards is the old flag or the predicate on the new chunk.
\<close>

lemma readToBuf_flag:
  assumes "readToBuf r = Inr r'"
  shows "0 < mBufDataLen r' \<and>
         mHasNoLineBreakAtEnd r' =
           (mHasNoLineBreakAtEnd r \<or>
            (mBufDataLen r' < int FQ_BUF_SIZE \<and> mBuf r' ! nat (mBufDataLen r' - 1) \<noteq> LF))"
  using assms
  by (auto simp: readToBuf_def gzread_def fread_def Let_def
           split: if_splits option.splits prod.splits sum.splits)

text \<open>
  C5 (the code departs from the claim): a refill that gets zero bytes from the source does
  look at a buffer byte, the one before the start of the buffer (\<^verbatim>\<open>mBuf[-1]\<close>), instead of
  leaving the flag false without reading anything.
\<close>

theorem readToBuf_zero_bytes_reads_before_buffer:
  "readToBuf (r\<lparr>mZipped := False, mFile := Some (open_source [])\<rparr>) = Inl OutOfBounds"
  by (simp add: readToBuf_def fread_def open_source_def FQ_BUF_SIZE_def)

subsection \<open>The line scanner\<close>

text \<open>
  C10 (the code departs from the claim): on a file that starts with an empty line the first
  \<open>getLine\<close> completes a line whose accumulated content is empty and reads its last
  character, which does not exist.
\<close>

theorem getLine_empty_line_reads_out_of_bounds:
  "\<exists>r. FastqReader_new [''in.fq'' \<mapsto> [LF]] stdin ''in.fq'' hq p64 = Inr r
       \<and> getLine r = Inl OutOfBounds"
  by (simp add: new_defs getLine.simps line_defs)

text \<open>
  C2 (the code departs from the claim): the one-record file that ends with a line feed yields
  its record; the same file without the final line feed yields null, because the scanner
  returns the empty string, not the pending quality line, when it reaches its terminal state.
\<close>

theorem missing_final_line_feed_loses_last_line:
  "(\<exists>r r'. FastqReader_new
              [''in.fq'' \<mapsto> ''@r1'' @ [LF] @ ''ACGT'' @ [LF] @ ''+'' @ [LF] @ ''IIII'' @ [LF]]
              stdin ''in.fq'' True p64 = Inr r
           \<and> read r = Some (Inr (Some (Read ''@r1'' ''ACGT'' ''+'' ''IIII'' p64), r')))
   \<and> (\<exists>r r'. FastqReader_new
              [''in.fq'' \<mapsto> ''@r1'' @ [LF] @ ''ACGT'' @ [LF] @ ''+'' @ [LF] @ ''IIII'']
              stdin ''in.fq'' True p64 = Inr r
           \<and> read r = Some (Inr (None, r')))"
  by (simp add: new_defs read_defs getLine.simps line_defs)

subsection \<open>Lines across refills\<close>

lemma source_handle_upd [simp]:
  "source_handle (r\<lparr>ctx := c\<rparr>) = source_handle r"
  "source_handle (r\<lparr>state := s\<rparr>) = source_handle r"
  by (simp_all add: source_handle_def)

lemma source_bytes_upd [simp]:
  "source_bytes (r\<lparr>ctx := c\<rparr>) = source_bytes r"
  "source_bytes (r\<lparr>state := s\<rparr>) = source_bytes r"
  by (simp_all add: source_bytes_def)

lemma eof_handle:
  "eof r = (case source_handle r of None \<Rightarrow> False | Some h \<Rightarrow> eof_ind h)"
  by (simp add: eof_def gzeof_def feof_def source_handle_def)

lemma eof_upd [simp]:
  "eof (r\<lparr>ctx := c\<rparr>) = eof r"
  "eof (r\<lparr>state := s\<rparr>) = eof r"
  by (simp_all add: eof_handle)

lemma source_left_bytes: "source_left r = length (source_bytes r)"
  by (simp add: source_left_def source_bytes_def source_handle_def split: option.splits)

lemma scan_buf_eq:
  "ctx_end c \<le> ctx_len c \<Longrightarrow> ctx_len c = length (ctx_buf c) \<Longrightarrow>
   scan_buf c =
     (ctx_end c + length (takeWhile (\<lambda>x. x \<noteq> LF) (drop (ctx_end c) (ctx_buf c))) = ctx_len c,
      c\<lparr>ctx_end := ctx_end c + length (takeWhile (\<lambda>x. x \<noteq> LF) (drop (ctx_end c) (ctx_buf c)))\<rparr>)"
proof (induction c rule: scan_buf.induct)
  case (1 c)
  show ?case
  proof (cases "ctx_end c < ctx_len c \<and> ctx_buf c ! ctx_end c \<noteq> LF")
    case True
    then have d: "drop (ctx_end c) (ctx_buf c) = ctx_buf c ! ctx_end c # drop (Suc (ctx_end c)) (ctx_buf c)"
      using 1(3) by (simp add: Cons_nth_drop_Suc)
    have "scan_buf c = scan_buf (c\<lparr>ctx_end := ctx_end c + 1\<rparr>)"
      using True by (subst scan_buf.simps) simp
    also have "\<dots> = (ctx_end c + 1 + length (takeWhile (\<lambda>x. x \<noteq> LF) (drop (ctx_end c + 1) (ctx_buf c))) = ctx_len c,
      c\<lparr>ctx_end := ctx_end c + 1 + length (takeWhile (\<lambda>x. x \<noteq> LF) (drop (ctx_end c + 1) (ctx_buf c)))\<rparr>)"
      using 1(1) [OF True] True 1(3) by simp
    finally show ?thesis using True d by simp
  next
    case False
    show ?thesis
    proof (cases "ctx_end c = ctx_len c")
      case True
      then show ?thesis using 1(3) by (subst scan_buf.simps) simp
    next
      case ne: False
      with False 1(2) have l: "ctx_end c < ctx_len c" "ctx_buf c ! ctx_end c = LF" by auto
      then have d: "drop (ctx_end c) (ctx_buf c) = LF # drop (Suc (ctx_end c)) (ctx_buf c)"
        using 1(3) by (metis Cons_nth_drop_Suc)
      show ?thesis using l ne d by (subst scan_buf.simps) simp
    qed
  qed
qed


lemma takeWhile_length_less:
  assumes "x \<in> set xs" and "\<not> P x"
  shows "length (takeWhile P xs) < length xs"
proof (rule ccontr)
  assume "\<not> length (takeWhile P xs) < length xs"
  then have "length (takeWhile P xs) = length xs"
    using length_takeWhile_le [of P xs] by simp
  then have "takeWhile P xs = xs"
    by (metis takeWhile_eq_take take_all order_refl)
  with assms show False
    by (simp add: takeWhile_eq_all_conv)
qed

lemma fq_next_found:
  assumes "ctx_start c = ctx_end c" and "ctx_end c \<le> ctx_len c"
    and "ctx_len c = length (ctx_buf c)"
    and "LF \<in> set (drop (ctx_start c) (ctx_buf c))"
  shows "fq_next c =
           (takeWhile (\<lambda>x. x \<noteq> LF) (drop (ctx_start c) (ctx_buf c)), True,
            c\<lparr>ctx_start := ctx_start c
                    + length (takeWhile (\<lambda>x. x \<noteq> LF) (drop (ctx_start c) (ctx_buf c))) + 1,
              ctx_end := ctx_start c
                    + length (takeWhile (\<lambda>x. x \<noteq> LF) (drop (ctx_start c) (ctx_buf c))) + 1\<rparr>)"
proof -
  let ?seg = "takeWhile (\<lambda>x. x \<noteq> LF) (drop (ctx_start c) (ctx_buf c))"
  have "length ?seg < length (drop (ctx_start c) (ctx_buf c))"
    using assms(4) by (rule takeWhile_length_less) simp
  then have lt: "ctx_start c + length ?seg < ctx_len c"
    using assms by simp
  have tk: "take (length ?seg) (drop (ctx_start c) (ctx_buf c)) = ?seg"
    by (rule takeWhile_eq_take [symmetric])
  show ?thesis
    using assms(1-3) lt tk by (simp add: fq_next_def scan_buf_eq Let_def)
qed

lemma fq_next_not_found:
  assumes "ctx_start c = ctx_end c" and "ctx_end c \<le> ctx_len c"
    and "ctx_len c = length (ctx_buf c)"
    and "LF \<notin> set (drop (ctx_start c) (ctx_buf c))"
  shows "fq_next c = (drop (ctx_start c) (ctx_buf c), False, c\<lparr>ctx_end := ctx_len c\<rparr>)"
proof -
  have tw: "takeWhile (\<lambda>x. x \<noteq> LF) (drop (ctx_end c) (ctx_buf c)) = drop (ctx_end c) (ctx_buf c)"
    using assms(1,4) by (simp add: takeWhile_eq_all_conv) metis
  have "scan_buf c = (True, c\<lparr>ctx_end := ctx_len c\<rparr>)"
    using assms(2,3) by (simp add: scan_buf_eq tw)
  with assms(1-3) show ?thesis
    by (simp add: fq_next_def)
qed

lemma fread_nonempty:
  assumes "remaining h \<noteq> []"
  shows "\<exists>bytes. fread h FQ_BUF_SIZE =
           (bytes, \<lparr>remaining = drop FQ_BUF_SIZE (remaining h),
                    eof_ind = (eof_ind h \<or> length (remaining h) < FQ_BUF_SIZE)\<rparr>)
         \<and> bytes = take FQ_BUF_SIZE (remaining h) \<and> 0 < length bytes
         \<and> length bytes = min (length (remaining h)) FQ_BUF_SIZE"
  using assms by (simp add: fread_def)

lemma readToBuf_refill:
  assumes "source_handle r = Some h" and "remaining h \<noteq> []"
  shows "\<exists>r2. readToBuf r = Inr r2
           \<and> ctx r2 = (ctx r)\<lparr>ctx_buf := take FQ_BUF_SIZE (remaining h),
                                ctx_len := min (length (remaining h)) FQ_BUF_SIZE,
                                ctx_start := 0, ctx_end := 0\<rparr>
           \<and> source_handle r2
               = Some \<lparr>remaining = drop FQ_BUF_SIZE (remaining h),
                       eof_ind = (eof_ind h \<or> length (remaining h) < FQ_BUF_SIZE)\<rparr>
           \<and> state r2 = state r"
proof -
  from fread_nonempty [OF assms(2)] obtain bytes where
    f: "fread h FQ_BUF_SIZE =
           (bytes, \<lparr>remaining = drop FQ_BUF_SIZE (remaining h),
                    eof_ind = (eof_ind h \<or> length (remaining h) < FQ_BUF_SIZE)\<rparr>)"
    and b: "bytes = take FQ_BUF_SIZE (remaining h)" "0 < length bytes"
      "length bytes = min (length (remaining h)) FQ_BUF_SIZE"
    by blast
  show ?thesis
  proof (cases "mZipped r")
    case True
    with assms(1) have "mZipFile r = Some h" by (simp add: source_handle_def)
    with True f b(2) show ?thesis
      unfolding b(1) [symmetric] b(3) [symmetric]
      by (simp add: readToBuf_def gzread_def Let_def source_handle_def)
  next
    case False
    with assms(1) have "mFile r = Some h" by (simp add: source_handle_def)
    with False f b(2) show ?thesis
      unfolding b(1) [symmetric] b(3) [symmetric]
      by (simp add: readToBuf_def Let_def source_handle_def)
  qed
qed

text \<open>
  The line that \<open>getLine\<close> completes is the accumulated content followed by the pending
  bytes up to the next line feed, however many refills lie in between. If that line is empty
  the call reads out of bounds; otherwise it returns the line without one final carriage
  return and leaves the reader at the start of the next line.
\<close>

lemma getLine_reassembles:
  assumes "scanning r" and "LF \<in> set (pending r)"
  shows "(ctx_partial (ctx r) @ takeWhile (\<lambda>x. x \<noteq> LF) (pending r) = []
            \<longrightarrow> getLine r = Inl OutOfBounds)
       \<and> (ctx_partial (ctx r) @ takeWhile (\<lambda>x. x \<noteq> LF) (pending r) \<noteq> []
            \<longrightarrow> (\<exists>r'. getLine r =
                        Inr (if last (ctx_partial (ctx r) @ takeWhile (\<lambda>x. x \<noteq> LF) (pending r)) = CR
                             then butlast (ctx_partial (ctx r) @ takeWhile (\<lambda>x. x \<noteq> LF) (pending r))
                             else ctx_partial (ctx r) @ takeWhile (\<lambda>x. x \<noteq> LF) (pending r), r')
                   \<and> scanning r' \<and> ctx_partial (ctx r') = []
                   \<and> pending r' = tl (dropWhile (\<lambda>x. x \<noteq> LF) (pending r))))"
  using assms
proof (induction "source_left r" arbitrary: r rule: less_induct)
  case less
  let ?c = "ctx r"
  let ?rest = "drop (ctx_start ?c) (ctx_buf ?c)"
  let ?seg = "takeWhile (\<lambda>x. x \<noteq> LF) ?rest"
  from less.prems(1) have inv: "state r = INITIAL" "ctx_start ?c = ctx_end ?c"
    "ctx_end ?c \<le> ctx_len ?c" "ctx_len ?c = length (ctx_buf ?c)" "ctx_len ?c \<le> FQ_BUF_SIZE"
    "source_handle r \<noteq> None"
    "ctx_len ?c = FQ_BUF_SIZE \<or> source_bytes r = []"
    "ctx_len ?c < FQ_BUF_SIZE \<or> \<not> eof r"
    by (auto simp: scanning_def)
  show ?case
  proof (cases "LF \<in> set ?rest")
    case True
    have nx: "fq_next ?c = (?seg, True,
        ?c\<lparr>ctx_start := ctx_start ?c + length ?seg + 1, ctx_end := ctx_start ?c + length ?seg + 1\<rparr>)"
      using inv(2-4) True by (rule fq_next_found)
    have lt: "length ?seg < length ?rest"
      using True by (rule takeWhile_length_less) simp
    have tw: "takeWhile (\<lambda>x. x \<noteq> LF) (pending r) = ?seg"
      using True by (simp add: pending_def takeWhile_append1)
    have "dropWhile (\<lambda>x. x \<noteq> LF) ?rest = drop (length ?seg) ?rest"
      by (rule dropWhile_eq_drop)
    then have dw: "tl (dropWhile (\<lambda>x. x \<noteq> LF) (pending r))
        = drop (ctx_start ?c + length ?seg + 1) (ctx_buf ?c) @ source_bytes r"
      using True lt by (simp add: pending_def dropWhile_append1 tl_drop add.commute drop_Suc)
    let ?full = "ctx_partial ?c @ ?seg"
    let ?r' = "r\<lparr>ctx := ?c\<lparr>ctx_start := ctx_start ?c + length ?seg + 1,
                              ctx_end := ctx_start ?c + length ?seg + 1,
                              ctx_partial := []\<rparr>\<rparr>"
    have sc1: "scanning ?r'"
      using inv lt by (simp add: scanning_def)
    have sc2: "pending ?r' = tl (dropWhile (\<lambda>x. x \<noteq> LF) (pending r))"
      unfolding dw by (simp add: pending_def)
    have gl: "getLine r =
        (if ?full = [] then Inl OutOfBounds
         else Inr (if last ?full = CR then butlast ?full else ?full, ?r'))"
      by (subst getLine.simps) (simp add: inv(1) nx Let_def)
    show ?thesis
      unfolding tw gl using sc1 sc2 by auto
  next
    case False
    have nx: "fq_next ?c = (?rest, False, ?c\<lparr>ctx_end := ctx_len ?c\<rparr>)"
      using inv(2-4) False by (rule fq_next_not_found)
    from False less.prems(2) have "LF \<in> set (source_bytes r)"
      by (simp add: pending_def)
    then have ne: "source_bytes r \<noteq> []" by auto
    with inv(7,8) have full: "ctx_len ?c = FQ_BUF_SIZE" and ne_eof: "\<not> eof r"
      by auto
    from inv(6) obtain h where h: "source_handle r = Some h" by auto
    with ne have rem: "remaining h = source_bytes r" "remaining h \<noteq> []"
      by (simp_all add: source_bytes_def)
    from ne_eof h have eh: "\<not> eof_ind h" by (simp add: eof_handle)
    let ?r1 = "r\<lparr>ctx := ?c\<lparr>ctx_end := ctx_len ?c,
                            ctx_partial := ctx_partial ?c @ ?rest\<rparr>,
                  state := NEW_CHUNK\<rparr>"
    have g1: "getLine r = getLine ?r1"
      by (subst getLine.simps) (simp add: inv(1) nx Let_def)
    have "source_handle ?r1 = Some h" using h by simp
    from readToBuf_refill [OF this rem(2)] obtain r2 where r2: "readToBuf ?r1 = Inr r2"
      "ctx r2 = (ctx ?r1)\<lparr>ctx_buf := take FQ_BUF_SIZE (remaining h),
                                ctx_len := min (length (remaining h)) FQ_BUF_SIZE,
                                ctx_start := 0, ctx_end := 0\<rparr>"
      "source_handle r2 = Some \<lparr>remaining = drop FQ_BUF_SIZE (remaining h),
                       eof_ind = (eof_ind h \<or> length (remaining h) < FQ_BUF_SIZE)\<rparr>"
      "state r2 = state ?r1"
      by blast
    let ?r3 = "r2\<lparr>state := INITIAL\<rparr>"
    have nz: "FQ_BUF_SIZE \<noteq> 0"
      by (simp add: FQ_BUF_SIZE_def)
    have g2: "getLine ?r1 = getLine ?r3"
      using r2(1) by (subst getLine.simps) (simp add: full ne_eof nz)
    have sb3: "source_bytes r2 = drop FQ_BUF_SIZE (remaining h)"
      by (simp add: source_bytes_def r2(3))
    have sc3: "scanning ?r3"
      using eh by (auto simp: scanning_def r2(2,3) sb3 eof_handle min_def)
    have p3: "pending ?r3 = source_bytes r"
      by (simp add: pending_def r2(2) sb3 rem(1) [symmetric])
    have part3: "ctx_partial (ctx r2) = ctx_partial ?c @ ?rest"
      by (simp add: r2(2))
    have lt3: "source_left ?r3 < source_left r"
      using rem(2) by (simp add: source_left_bytes sb3 rem(1) [symmetric])
    have lf3: "LF \<in> set (pending ?r3)"
      using \<open>LF \<in> set (source_bytes r)\<close> p3 by simp
    have IH:
      "(ctx_partial (ctx ?r3) @ takeWhile (\<lambda>x. x \<noteq> LF) (pending ?r3) = []
            \<longrightarrow> getLine ?r3 = Inl OutOfBounds)
       \<and> (ctx_partial (ctx ?r3) @ takeWhile (\<lambda>x. x \<noteq> LF) (pending ?r3) \<noteq> []
            \<longrightarrow> (\<exists>r'. getLine ?r3 =
                        Inr (if last (ctx_partial (ctx ?r3) @ takeWhile (\<lambda>x. x \<noteq> LF) (pending ?r3)) = CR
                             then butlast (ctx_partial (ctx ?r3) @ takeWhile (\<lambda>x. x \<noteq> LF) (pending ?r3))
                             else ctx_partial (ctx ?r3) @ takeWhile (\<lambda>x. x \<noteq> LF) (pending ?r3), r')
                   \<and> scanning r' \<and> ctx_partial (ctx r') = []
                   \<and> pending r' = tl (dropWhile (\<lambda>x. x \<noteq> LF) (pending ?r3))))"
      using lt3 sc3 lf3 by (rule less.hyps)
    have tw: "takeWhile (\<lambda>x. x \<noteq> LF) (pending r) = ?rest @ takeWhile (\<lambda>x. x \<noteq> LF) (source_bytes r)"
      using False unfolding pending_def by (intro takeWhile_append2) auto
    have dw: "dropWhile (\<lambda>x. x \<noteq> LF) (pending r) = dropWhile (\<lambda>x. x \<noteq> LF) (source_bytes r)"
      using False unfolding pending_def by (intro dropWhile_append2) auto
    have eq: "ctx_partial (ctx ?r3) @ takeWhile (\<lambda>x. x \<noteq> LF) (source_bytes r)
            = ctx_partial ?c @ takeWhile (\<lambda>x. x \<noteq> LF) (pending r)"
      by (simp add: part3 tw)
    show ?thesis
      using IH unfolding eq g1 g2 dw p3 .
  qed
qed

text \<open>An empty line, wherever it stands in the input, makes \<open>getLine\<close> read out of bounds.\<close>

lemma getLine_empty_line:
  assumes "line_start r" and "pending r = LF # rest"
  shows "getLine r = Inl OutOfBounds"
proof -
  from assms(1) have s: "scanning r" and p: "ctx_partial (ctx r) = []"
    by (simp_all add: line_start_def)
  from assms(2) have "LF \<in> set (pending r)" by simp
  from getLine_reassembles [OF s this] p assms(2) show ?thesis by simp
qed

lemma readToBuf_line_start:
  assumes "readToBuf r = Inr r'" and "source_handle r = Some h" and "eof_ind h = False"
    and "state r = INITIAL" and "ctx_partial (ctx r) = []"
  shows "line_start r' \<and> pending r' = remaining h"
proof -
  have ne: "remaining h \<noteq> []"
  proof
    assume "remaining h = []"
    with assms(1,2) show False
      by (auto simp: readToBuf_def gzread_def fread_def source_handle_def Let_def
               split: if_splits)
  qed
  from readToBuf_refill [OF assms(2) ne] assms(1) have r':
      "ctx r' = (ctx r)\<lparr>ctx_buf := take FQ_BUF_SIZE (remaining h),
                                ctx_len := min (length (remaining h)) FQ_BUF_SIZE,
                                ctx_start := 0, ctx_end := 0\<rparr>"
      "source_handle r' = Some \<lparr>remaining = drop FQ_BUF_SIZE (remaining h),
                       eof_ind = (eof_ind h \<or> length (remaining h) < FQ_BUF_SIZE)\<rparr>"
      "state r' = state r"
    by auto
  show ?thesis
    using assms(3-5)
    by (auto simp: line_start_def scanning_def pending_def source_bytes_def eof_handle r' min_def)
qed

lemma FastqReader_new_line_start:
  assumes "FastqReader_new fs stdin filename hq p64 = Inr r"
  shows "line_start r
       \<and> Some (pending r) = (if \<not> ends_with filename ''.gz'' \<and> filename = ''/dev/stdin''
                             then Some stdin else fs filename)"
proof -
  let ?r0 = "\<lparr>mFilename = filename, mZipFile = None, mZipped = False, mFile = None,
        mPhred64 = p64, mHasQuality = hq, mBuf = [],
        mBufDataLen = 0, mBufUsedLen = 0, mHasNoLineBreakAtEnd = False,
        ctx = \<lparr>ctx_buf = [], ctx_len = 0, ctx_start = 0, ctx_end = 0, ctx_partial = []\<rparr>,
        state = INITIAL\<rparr>"
  show ?thesis
  proof (cases "ends_with filename ''.gz''")
    case True
    let ?r1 = "?r0\<lparr>mZipFile := map_option open_source (fs filename), mZipped := True\<rparr>"
    from assms True have rb: "readToBuf ?r1 = Inr r"
      by (simp add: FastqReader_new_def init_def)
    then obtain bytes where b: "fs filename = Some bytes"
      by (cases "fs filename") (auto simp: readToBuf_def gzread_def FQ_BUF_SIZE_def)
    then have "source_handle ?r1 = Some (open_source bytes)"
      by (simp add: source_handle_def)
    from readToBuf_line_start [OF rb this] True b show ?thesis
      by (simp add: open_source_def)
  next
    case False
    let ?src = "if filename = ''/dev/stdin'' then Some stdin else fs filename"
    let ?r1 = "?r0\<lparr>mFile := map_option open_source ?src, mZipped := False\<rparr>"
    from assms False obtain bytes where b: "?src = Some bytes"
      by (cases ?src) (auto simp: FastqReader_new_def init_def Let_def split: if_splits)
    with assms False have rb: "readToBuf ?r1 = Inr r"
      by (auto simp: FastqReader_new_def init_def Let_def split: if_splits)
    from b have "source_handle ?r1 = Some (open_source bytes)"
      by (simp add: source_handle_def)
    from readToBuf_line_start [OF rb this] False b show ?thesis
      by (auto simp: open_source_def split: if_splits)
  qed
qed

text \<open>
  C8 (as stated it fails): the line \<open>a\<close>, carriage return, carriage return, line feed ends
  with a carriage return and a line feed, and the value returned still ends with a carriage
  return.
\<close>

theorem getLine_double_carriage_return_counterexample:
  "first_line (''a'' @ [CR, CR, LF]) = Inr (''a'' @ [CR])"
  by (simp add: first_line_def new_defs getLine.simps line_defs)

text \<open>
  C8 (amended): for a reader at the start of a line whose pending input holds a line feed,
  with a non-empty content before it, \<open>getLine\<close> returns that content, reassembled across
  refills, with exactly one final carriage return removed if its last character is one and
  unchanged otherwise, and leaves the reader at the start of the line after the line feed.
  So the content before a final carriage return and line feed is returned as it is.
\<close>

theorem getLine_strips_one_carriage_return:
  assumes "line_start r" and "LF \<in> set (pending r)"
    and "takeWhile (\<lambda>x. x \<noteq> LF) (pending r) \<noteq> []"
  shows "\<exists>r'. getLine r =
                Inr (if last (takeWhile (\<lambda>x. x \<noteq> LF) (pending r)) = CR
                     then butlast (takeWhile (\<lambda>x. x \<noteq> LF) (pending r))
                     else takeWhile (\<lambda>x. x \<noteq> LF) (pending r), r')
           \<and> line_start r'
           \<and> pending r' = tl (dropWhile (\<lambda>x. x \<noteq> LF) (pending r))"
proof -
  from assms(1) have s: "scanning r" and p: "ctx_partial (ctx r) = []"
    by (simp_all add: line_start_def)
  from getLine_reassembles [OF s assms(2)] assms(3) p show ?thesis
    by (auto simp: line_start_def)
qed

theorem getLine_strips_one_carriage_return_witness:
  "\<exists>r r'. FastqReader_new [''in.fq'' \<mapsto> ''a'' @ [CR, LF] @ ''b'' @ [LF]] [] ''in.fq'' True False
             = Inr r
         \<and> line_start r \<and> LF \<in> set (pending r)
         \<and> getLine r = Inr (''a'', r') \<and> line_start r' \<and> pending r' = ''b'' @ [LF]"
proof -
  obtain r where r:
    "FastqReader_new [''in.fq'' \<mapsto> ''a'' @ [CR, LF] @ ''b'' @ [LF]] [] ''in.fq'' True False = Inr r"
    by (simp add: new_defs)
  from FastqReader_new_line_start [OF r]
  have ls: "line_start r" and pd: "pending r = ''a'' @ [CR, LF] @ ''b'' @ [LF]"
    by (simp_all add: ends_with_def)
  from pd have lf: "LF \<in> set (pending r)"
    and ne: "takeWhile (\<lambda>x. x \<noteq> LF) (pending r) \<noteq> []"
    by simp_all
  from getLine_strips_one_carriage_return [OF ls lf ne] pd
  obtain r' where "getLine r = Inr (''a'', r')" "line_start r'" "pending r' = ''b'' @ [LF]"
    by auto
  with r ls lf show ?thesis by blast
qed

subsection \<open>The skip loop\<close>

text \<open>
  Once the scanner is in its terminal state and the last chunk was not empty, the loop
  condition stays true on the empty name: the loop cannot return.
\<close>

lemma skip_loop_returns_not_stuck:
  assumes "skip_loop name q = Some z"
  shows "\<not> (name = [] \<and> state q = DONE \<and> mBufUsedLen q < mBufDataLen q)"
proof (rule skip_loop.raw_induct
    [where P = "\<lambda>n r y. \<not> (n = [] \<and> state r = DONE \<and> mBufUsedLen r < mBufDataLen r)",
     OF _ assms])
  fix loop n r y
  assume IH: "\<And>n r y. loop n r = Some y \<Longrightarrow>
      \<not> (n = [] \<and> state r = DONE \<and> mBufUsedLen r < mBufDataLen r)"
    and body: "(if (n = [] \<and> \<not> (mBufUsedLen r \<ge> mBufDataLen r \<and> eof r))
                   \<or> (n \<noteq> [] \<and> n ! 0 \<noteq> CHR ''@'')
                then (case getLine r of
                        Inl e \<Rightarrow> Some (Inl e)
                      | Inr (name', r') \<Rightarrow> loop name' r')
                else Some (Inr (n, r))) = Some y"
  show "\<not> (n = [] \<and> state r = DONE \<and> mBufUsedLen r < mBufDataLen r)"
  proof
    assume a: "n = [] \<and> state r = DONE \<and> mBufUsedLen r < mBufDataLen r"
    with body have "loop [] r = Some y"
      by (simp add: getLine_DONE)
    from IH [OF this] a show False by simp
  qed
qed

lemma skip_loop_stuck:
  assumes "state r = DONE" and "mBufUsedLen r < mBufDataLen r"
  shows "skip_loop [] r = None"
proof (cases "skip_loop [] r")
  case None
  then show ?thesis .
next
  case (Some y)
  from skip_loop_returns_not_stuck [OF this] assms show ?thesis by simp
qed

lemma read_stuck:
  assumes "\<not> (mZipped r \<and> mZipFile r = None)"
    and "\<not> (mBufUsedLen r \<ge> mBufDataLen r \<and> eof r)"
    and "getLine r = Inr (name, r1)" and "name \<noteq> []" and "name ! 0 \<noteq> CHR ''@''"
    and "getLine r1 = Inr ([], r2)"
    and "state r2 = DONE" and "mBufUsedLen r2 < mBufDataLen r2"
  shows "read r = None"
proof -
  have "skip_loop name r1 = skip_loop [] r2"
    using assms by (subst skip_loop.simps) simp
  then have "skip_loop name r1 = None"
    using assms skip_loop_stuck by simp
  with assms show ?thesis by (simp add: read_def)
qed

text \<open>
  C3 (the code departs from the claim): on the two-byte file \<open>x\<close>, line feed, the first call
  of \<open>read\<close> does not return. The line \<open>x\<close> is skipped, the source is exhausted, and the
  loop keeps asking for lines: its exhaustion test compares \<^verbatim>\<open>mBufUsedLen\<close>, which stays 0,
  with the length of the last chunk.
\<close>

theorem read_garbage_line_never_returns:
  "\<exists>r. FastqReader_new [''in.fq'' \<mapsto> ''x'' @ [LF]] stdin ''in.fq'' hq p64 = Inr r
       \<and> read r = None"
proof -
  obtain r where r: "FastqReader_new [''in.fq'' \<mapsto> ''x'' @ [LF]] stdin ''in.fq'' hq p64 = Inr r"
    and g: "\<exists>name r1 r2. getLine r = Inr (name, r1) \<and> name \<noteq> [] \<and> name ! 0 \<noteq> CHR ''@'' \<and>
       getLine r1 = Inr ([], r2) \<and> state r2 = DONE \<and> mBufUsedLen r2 < mBufDataLen r2"
    and e: "\<not> (mZipped r \<and> mZipFile r = None)" "\<not> (mBufUsedLen r \<ge> mBufDataLen r \<and> eof r)"
    by (simp add: new_defs getLine.simps line_defs)
  from g e have "read r = None" using read_stuck by blast
  with r show ?thesis by simp
qed

subsection \<open>Opening\<close>

lemma read_null_zip_handle:
  "mZipped r \<Longrightarrow> mZipFile r = None \<Longrightarrow> read r = Some (Inr (None, r))"
  by (simp add: read_def)

lemma init_plain_open_failure:
  assumes "\<not> ends_with filename ''.gz''" and "filename \<noteq> ''/dev/stdin''" and "fs filename = None"
  shows "FastqReader_new fs stdin filename hq p64
           = Inl (FatalExit (''Failed to open file: '' @ filename))"
  using assms by (simp add: FastqReader_new_def init_def Let_def)

text \<open>
  C4 (the code departs from the claim): for a path that ends in \<open>.gz\<close> and cannot be opened,
  construction does not end in the fatal exit that a plain path gets
  (\<open>init_plain_open_failure\<close>). It goes on to \<open>readToBuf\<close> with the null handle, where
  \<^verbatim>\<open>gzread\<close> answers -1 and the code then looks at \<^verbatim>\<open>mBuf[-2]\<close>.
\<close>

theorem init_gz_open_failure_not_fatal:
  assumes "ends_with filename ''.gz''" and "fs filename = None"
  shows "FastqReader_new fs stdin filename hq p64 = Inl OutOfBounds"
  using assms
  by (simp add: FastqReader_new_def init_def readToBuf_def gzread_def FQ_BUF_SIZE_def)

theorem init_gz_open_failure_not_fatal_witness:
  "ends_with ''reads.fq.gz'' ''.gz'' \<and> Map.empty ''reads.fq.gz'' = None
   \<and> FastqReader_new Map.empty [] ''reads.fq.gz'' True False = Inl OutOfBounds"
  using init_gz_open_failure_not_fatal [of "''reads.fq.gz''" Map.empty "[]" True False]
  by (simp add: ends_with_def)

subsection \<open>Records\<close>

lemma read_DONE: "state r = DONE \<Longrightarrow> read r = Some (Inr (None, r))"
  by (simp add: read_def getLine_DONE)

lemma reads_DONE: "state r = DONE \<Longrightarrow> reads n r = Some (Inr (replicate n None, r))"
  by (induction n) (simp_all add: read_DONE)

text \<open>
  C6: on the file \<open>@r1 ACGT + IIII @r2 GGTT + JJJJ\<close> (each line ended by a line feed) read
  with quality, the first three calls of \<open>read\<close> return the record (\<open>@r1\<close>, \<open>ACGT\<close>, \<open>IIII\<close>),
  the record (\<open>@r2\<close>, \<open>GGTT\<close>, \<open>JJJJ\<close>) and null, and any number of further calls return null.
\<close>

theorem read_two_records_then_null:
  "\<exists>r0 r3.
     FastqReader_new
       [''in.fq'' \<mapsto> ''@r1'' @ [LF] @ ''ACGT'' @ [LF] @ ''+'' @ [LF] @ ''IIII'' @ [LF]
                      @ ''@r2'' @ [LF] @ ''GGTT'' @ [LF] @ ''+'' @ [LF] @ ''JJJJ'' @ [LF]]
       stdin ''in.fq'' True p64 = Inr r0
   \<and> reads 3 r0 = Some (Inr ([Some (Read ''@r1'' ''ACGT'' ''+'' ''IIII'' p64),
                              Some (Read ''@r2'' ''GGTT'' ''+'' ''JJJJ'' p64), None], r3))
   \<and> (\<forall>n. reads n r3 = Some (Inr (replicate n None, r3)))"
proof -
  obtain r0 r3 where
    "FastqReader_new
       [''in.fq'' \<mapsto> ''@r1'' @ [LF] @ ''ACGT'' @ [LF] @ ''+'' @ [LF] @ ''IIII'' @ [LF]
                      @ ''@r2'' @ [LF] @ ''GGTT'' @ [LF] @ ''+'' @ [LF] @ ''JJJJ'' @ [LF]]
       stdin ''in.fq'' True p64 = Inr r0"
    and "reads 3 r0 = Some (Inr ([Some (Read ''@r1'' ''ACGT'' ''+'' ''IIII'' p64),
                              Some (Read ''@r2'' ''GGTT'' ''+'' ''JJJJ'' p64), None], r3))"
    and "state r3 = DONE"
    by (simp add: new_defs read_defs getLine.simps line_defs numeral_3_eq_3)
  then show ?thesis using reads_DONE by blast
qed

text \<open>
  C7: a record that \<open>read\<close> returns from a reader without quality has a quality string of
  the length of its sequence made of the character \<open>K\<close> only, and the call consumed the
  lines up to the identifier, the sequence line and the separator line and nothing after:
  the reader it leaves is the one \<open>getLine\<close> returned with the separator line.
\<close>

theorem read_without_quality:
  assumes "read r = Some (Inr (Some rd, r'))" and "\<not> mHasQuality r"
  shows "mQuality rd = replicate (length (mSeq rd)) CHR ''K''
         \<and> (\<exists>name0 r1 r2 r3.
               getLine r = Inr (name0, r1)
             \<and> skip_loop name0 r1 = Some (Inr (mName rd, r2))
             \<and> getLine r2 = Inr (mSeq rd, r3)
             \<and> getLine r3 = Inr (mStrand rd, r'))"
proof -
  from assms(1) obtain name0 r1 where g0: "getLine r = Inr (name0, r1)" and n0: "name0 \<noteq> []"
    by (auto simp: read_def split: if_splits sum.splits)
  with assms(1) obtain name r2 where sk: "skip_loop name0 r1 = Some (Inr (name, r2))" and n: "name \<noteq> []"
    by (auto simp: read_def split: if_splits sum.splits option.splits)
  with assms(1) g0 n0 obtain sequence r3 strand r4 where g2: "getLine r2 = Inr (sequence, r3)"
     and g3: "getLine r3 = Inr (strand, r4)"
    by (auto simp: read_def split: if_splits sum.splits option.splits)
  have "mHasQuality r4 = mHasQuality r"
    using getLine_config [OF g0] skip_loop_config [OF sk] getLine_config [OF g2]
      getLine_config [OF g3] by simp
  with assms g0 n0 sk n g2 g3 show ?thesis
    by (auto simp: read_def split: if_splits)
qed

theorem read_without_quality_witness:
  "\<exists>r rd r'.
     FastqReader_new
       [''in.fq'' \<mapsto> ''@r1'' @ [LF] @ ''ACGT'' @ [LF] @ ''+'' @ [LF]
                      @ ''@r2'' @ [LF] @ ''GGTT'' @ [LF] @ ''+'' @ [LF]]
       [] ''in.fq'' False False = Inr r
   \<and> \<not> mHasQuality r
   \<and> read r = Some (Inr (Some rd, r'))
   \<and> mSeq rd = ''ACGT'' \<and> mQuality rd = ''KKKK''"
proof -
  obtain r rd r' where r:
    "FastqReader_new
       [''in.fq'' \<mapsto> ''@r1'' @ [LF] @ ''ACGT'' @ [LF] @ ''+'' @ [LF]
                      @ ''@r2'' @ [LF] @ ''GGTT'' @ [LF] @ ''+'' @ [LF]]
       [] ''in.fq'' False False = Inr r"
    and q: "\<not> mHasQuality r"
    and rd: "read r = Some (Inr (Some rd, r'))"
    and s: "mSeq rd = ''ACGT''"
    by (simp add: new_defs read_defs getLine.simps line_defs)
  from read_without_quality [OF rd q] s have "mQuality rd = ''KKKK''"
    by (simp add: numeral_eq_Suc)
  with r q rd s show ?thesis by blast
qed

text \<open>
  C1 (as stated it fails): in the file below the first record has a two-character quality
  line for a four-base sequence. The first call of \<open>read\<close> returns null, the second call
  returns the record \<open>@r2\<close>.
\<close>

theorem read_after_mismatch_counterexample:
  "read_file (''@r1'' @ [LF] @ ''ACGT'' @ [LF] @ ''+'' @ [LF] @ ''II'' @ [LF]
              @ ''@r2'' @ [LF] @ ''GGTT'' @ [LF] @ ''+'' @ [LF] @ ''JJJJ'' @ [LF]) True False 2
     = Some (Inr [None, Some (Read ''@r2'' ''GGTT'' ''+'' ''JJJJ'' False)])"
  by (simp add: read_file_def new_defs read_defs getLine.simps line_defs numeral_2_eq_2)

text \<open>
  C1 (amended): for a reader with quality, when a call of \<open>read\<close> gets an identifier line,
  a sequence line, a separator line and a quality line, it returns null if the quality line
  and the sequence line differ in length and the record otherwise, and in both cases it
  leaves the reader as \<open>getLine\<close> returned it with the quality line. Nothing records the
  mismatch, so the next call goes on with the bytes that follow.
\<close>

theorem read_with_quality:
  assumes "mHasQuality r"
    and "\<not> (mZipped r \<and> mZipFile r = None)"
    and "\<not> (mBufUsedLen r \<ge> mBufDataLen r \<and> eof r)"
    and "getLine r = Inr (name0, r1)" and "name0 \<noteq> []"
    and "skip_loop name0 r1 = Some (Inr (name, r2))" and "name \<noteq> []"
    and "getLine r2 = Inr (sequence, r3)"
    and "getLine r3 = Inr (strand, r4)"
    and "getLine r4 = Inr (quality, r5)"
  shows "read r =
           Some (Inr (if length quality \<noteq> length sequence then None
                      else Some (Read name sequence strand quality (mPhred64 r)), r5))"
proof -
  have "mHasQuality r4 = mHasQuality r"
    using getLine_config [OF assms(4)] skip_loop_config [OF assms(6)]
      getLine_config [OF assms(8)] getLine_config [OF assms(9)] by simp
  moreover have "mPhred64 r5 = mPhred64 r"
    using getLine_config [OF assms(4)] skip_loop_config [OF assms(6)]
      getLine_config [OF assms(8)] getLine_config [OF assms(9)] getLine_config [OF assms(10)]
    by simp
  ultimately show ?thesis
    using assms by (auto simp: read_def)
qed

theorem read_with_quality_witness:
  "\<exists>r r5.
     FastqReader_new
       [''in.fq'' \<mapsto> ''@r1'' @ [LF] @ ''ACGT'' @ [LF] @ ''+'' @ [LF] @ ''II'' @ [LF]
                      @ ''@r2'' @ [LF] @ ''GGTT'' @ [LF] @ ''+'' @ [LF] @ ''JJJJ'' @ [LF]]
       [] ''in.fq'' True False = Inr r
   \<and> read r = Some (Inr (None, r5)) \<and> state r5 = INITIAL"
proof -
  obtain r name0 r1 name r2 sequence r3 strand r4 quality r5 where r:
    "FastqReader_new
       [''in.fq'' \<mapsto> ''@r1'' @ [LF] @ ''ACGT'' @ [LF] @ ''+'' @ [LF] @ ''II'' @ [LF]
                      @ ''@r2'' @ [LF] @ ''GGTT'' @ [LF] @ ''+'' @ [LF] @ ''JJJJ'' @ [LF]]
       [] ''in.fq'' True False = Inr r"
    and h: "mHasQuality r" "\<not> (mZipped r \<and> mZipFile r = None)"
      "\<not> (mBufUsedLen r \<ge> mBufDataLen r \<and> eof r)"
      "getLine r = Inr (name0, r1)" "name0 \<noteq> []"
      "skip_loop name0 r1 = Some (Inr (name, r2))" "name \<noteq> []"
      "getLine r2 = Inr (sequence, r3)"
      "getLine r3 = Inr (strand, r4)"
      "getLine r4 = Inr (quality, r5)"
    and m: "length quality \<noteq> length sequence" and s: "state r5 = INITIAL"
    by (simp add: new_defs read_defs getLine.simps line_defs)
  from read_with_quality [OF h] m have "read r = Some (Inr (None, r5))"
    by simp
  with r s show ?thesis by blast
qed

subsection \<open>Pairs\<close>

lemma reads_Suc_Inr:
  assumes "reads (Suc n) r = Some (Inr (xs, r'))"
  obtains x r1 xs' where "read r = Some (Inr (x, r1))"
    and "reads n r1 = Some (Inr (xs', r'))" and "xs = x # xs'"
  using assms by (auto split: option.splits sum.splits)

lemma pair_reads_two_sources:
  "\<not> mInterleaved p \<Longrightarrow> mRight p = Some r \<Longrightarrow> reads n (mLeft p) = Some (Inr (xs, l'))
   \<Longrightarrow> reads n r = Some (Inr (ys, r'))
   \<Longrightarrow> pair_reads n p
        = Some (Inr (map2 pair_of xs ys, p\<lparr>mLeft := l', mRight := Some r'\<rparr>))"
proof (induction n arbitrary: p r xs ys)
  case 0
  then show ?case by simp
next
  case (Suc n)
  from Suc.prems(3) obtain x l1 xs' where l: "read (mLeft p) = Some (Inr (x, l1))"
    "reads n l1 = Some (Inr (xs', l'))" "xs = x # xs'"
    by (rule reads_Suc_Inr)
  from Suc.prems(4) obtain y r1 ys' where r: "read r = Some (Inr (y, r1))"
    "reads n r1 = Some (Inr (ys', r'))" "ys = y # ys'"
    by (rule reads_Suc_Inr)
  let ?p1 = "p\<lparr>mLeft := l1, mRight := Some r1\<rparr>"
  have step: "pair_read p = Some (Inr (pair_of x y, ?p1))"
    using Suc.prems(1,2) l(1) r(1) by (simp add: pair_read_def)
  have "pair_reads n ?p1
        = Some (Inr (map2 pair_of xs' ys', ?p1\<lparr>mLeft := l', mRight := Some r'\<rparr>))"
    using Suc.prems(1) l(2) r(2) by (intro Suc.IH) simp_all
  with step l(3) r(3) show ?case by simp
qed

lemma pair_reads_interleaved:
  "mInterleaved p \<Longrightarrow> reads (2 * n) (mLeft p) = Some (Inr (zs, l'))
   \<Longrightarrow> pair_reads n p = Some (Inr (pairs_of zs, p\<lparr>mLeft := l'\<rparr>))"
proof (induction n arbitrary: p zs)
  case 0
  then show ?case by simp
next
  case (Suc n)
  from Suc.prems(2) have "reads (Suc (Suc (2 * n))) (mLeft p) = Some (Inr (zs, l'))"
    by simp
  then obtain a l1 zs1 where a: "read (mLeft p) = Some (Inr (a, l1))"
    "reads (Suc (2 * n)) l1 = Some (Inr (zs1, l'))" "zs = a # zs1"
    by (rule reads_Suc_Inr)
  from a(2) obtain b l2 zs2 where b: "read l1 = Some (Inr (b, l2))"
    "reads (2 * n) l2 = Some (Inr (zs2, l'))" "zs1 = b # zs2"
    by (rule reads_Suc_Inr)
  let ?p1 = "p\<lparr>mLeft := l2\<rparr>"
  have step: "pair_read p = Some (Inr (pair_of a b, ?p1))"
    using Suc.prems(1) a(1) b(1) by (simp add: pair_read_def)
  have "pair_reads n ?p1 = Some (Inr (pairs_of zs2, ?p1\<lparr>mLeft := l'\<rparr>))"
    using Suc.prems(1) b(2) by (intro Suc.IH) simp_all
  with step a(3) b(3) show ?case by simp
qed

lemma pair_of_None: "(pair_of a b = None) = (a = None \<or> b = None)"
  by (simp add: pair_of_def split: option.splits)

text \<open>
  C9: \<open>n\<close> calls of the paired reader. With two sources (not interleaved) they return the
  results of \<open>n\<close> calls on the left reader and of \<open>n\<close> calls on the right reader joined
  position by position, one record drawn from each side per call. Interleaved, they return
  the results of \<open>2 * n\<close> calls on the single reader joined two by two: results 1 and 2,
  3 and 4, and so on. A joined result is null exactly when one of its two draws is null.
  For a left file of three records and a right file of two this gives two pairs, then null;
  for an interleaved file of four records it gives the pairs (1,2) and (3,4), then null (the
  witness evaluates both).
\<close>

theorem pair_read_lockstep:
  "(\<not> mInterleaved p \<longrightarrow> mRight p = Some r \<longrightarrow> reads n (mLeft p) = Some (Inr (xs, l'))
      \<longrightarrow> reads n r = Some (Inr (ys, r'))
      \<longrightarrow> pair_reads n p
            = Some (Inr (map2 pair_of xs ys, p\<lparr>mLeft := l', mRight := Some r'\<rparr>)))
   \<and> (mInterleaved p \<longrightarrow> reads (2 * n) (mLeft p) = Some (Inr (zs, l''))
      \<longrightarrow> pair_reads n p = Some (Inr (pairs_of zs, p\<lparr>mLeft := l''\<rparr>)))
   \<and> ((pair_of a b = None) = (a = None \<or> b = None))"
proof (intro conjI impI)
  assume "\<not> mInterleaved p" and "mRight p = Some r"
    and "reads n (mLeft p) = Some (Inr (xs, l'))" and "reads n r = Some (Inr (ys, r'))"
  then show "pair_reads n p
            = Some (Inr (map2 pair_of xs ys, p\<lparr>mLeft := l', mRight := Some r'\<rparr>))"
    by (rule pair_reads_two_sources)
next
  assume "mInterleaved p" and "reads (2 * n) (mLeft p) = Some (Inr (zs, l''))"
  then show "pair_reads n p = Some (Inr (pairs_of zs, p\<lparr>mLeft := l''\<rparr>))"
    by (rule pair_reads_interleaved)
next
  show "(pair_of a b = None) = (a = None \<or> b = None)"
    by (rule pair_of_None)
qed


theorem pair_read_lockstep_witness:
  "(\<exists>p p'.
      FastqReaderPair_new
        [''l.fq'' \<mapsto> fastq_text [Read ''@a1'' ''ACGT'' ''+'' ''IIII'' False,
                                  Read ''@a2'' ''GGTT'' ''+'' ''JJJJ'' False,
                                  Read ''@a3'' ''CCAA'' ''+'' ''HHHH'' False],
         ''r.fq'' \<mapsto> fastq_text [Read ''@b1'' ''TGCA'' ''+'' ''FFFF'' False,
                                  Read ''@b2'' ''AACC'' ''+'' ''GGGG'' False]]
        [] ''l.fq'' ''r.fq'' True False False = Inr p
    \<and> pair_reads 3 p
        = Some (Inr ([Some (ReadPair (Read ''@a1'' ''ACGT'' ''+'' ''IIII'' False)
                                     (Read ''@b1'' ''TGCA'' ''+'' ''FFFF'' False)),
                      Some (ReadPair (Read ''@a2'' ''GGTT'' ''+'' ''JJJJ'' False)
                                     (Read ''@b2'' ''AACC'' ''+'' ''GGGG'' False)),
                      None], p')))
   \<and> (\<exists>q q'.
      FastqReaderPair_new
        [''i.fq'' \<mapsto> fastq_text [Read ''@a1'' ''ACGT'' ''+'' ''IIII'' False,
                                  Read ''@b1'' ''TGCA'' ''+'' ''FFFF'' False,
                                  Read ''@a2'' ''GGTT'' ''+'' ''JJJJ'' False,
                                  Read ''@b2'' ''AACC'' ''+'' ''GGGG'' False]]
        [] ''i.fq'' [] True False True = Inr q
    \<and> pair_reads 3 q
        = Some (Inr ([Some (ReadPair (Read ''@a1'' ''ACGT'' ''+'' ''IIII'' False)
                                     (Read ''@b1'' ''TGCA'' ''+'' ''FFFF'' False)),
                      Some (ReadPair (Read ''@a2'' ''GGTT'' ''+'' ''JJJJ'' False)
                                     (Read ''@b2'' ''AACC'' ''+'' ''GGGG'' False)),
                      None], q')))"
proof -
  let ?a1 = "Read ''@a1'' ''ACGT'' ''+'' ''IIII'' False"
  let ?a2 = "Read ''@a2'' ''GGTT'' ''+'' ''JJJJ'' False"
  let ?a3 = "Read ''@a3'' ''CCAA'' ''+'' ''HHHH'' False"
  let ?b1 = "Read ''@b1'' ''TGCA'' ''+'' ''FFFF'' False"
  let ?b2 = "Read ''@b2'' ''AACC'' ''+'' ''GGGG'' False"
  obtain p r l' r' where p:
    "FastqReaderPair_new
        [''l.fq'' \<mapsto> fastq_text [?a1, ?a2, ?a3], ''r.fq'' \<mapsto> fastq_text [?b1, ?b2]]
        [] ''l.fq'' ''r.fq'' True False False = Inr p"
    and hp: "\<not> mInterleaved p" "mRight p = Some r"
      "reads 3 (mLeft p) = Some (Inr ([Some ?a1, Some ?a2, Some ?a3], l'))"
      "reads 3 r = Some (Inr ([Some ?b1, Some ?b2, None], r'))"
    by (simp add: FastqReaderPair_new_def new_defs read_defs getLine.simps line_defs
          numeral_3_eq_3)
  from pair_read_lockstep [THEN conjunct1, rule_format, OF hp]
  have 1: "pair_reads 3 p
        = Some (Inr ([Some (ReadPair ?a1 ?b1), Some (ReadPair ?a2 ?b2), None],
                     p\<lparr>mLeft := l', mRight := Some r'\<rparr>))"
    by (simp add: pair_of_def)
  obtain q l'' where q:
    "FastqReaderPair_new
        [''i.fq'' \<mapsto> fastq_text [?a1, ?b1, ?a2, ?b2]]
        [] ''i.fq'' [] True False True = Inr q"
    and hq: "mInterleaved q"
      "reads (2 * 3) (mLeft q)
         = Some (Inr ([Some ?a1, Some ?b1, Some ?a2, Some ?b2, None, None], l''))"
    by (simp add: FastqReaderPair_new_def new_defs read_defs getLine.simps line_defs
          numeral_3_eq_3 numeral_2_eq_2)
  from pair_read_lockstep [THEN conjunct2, THEN conjunct1, rule_format, OF hq]
  have 2: "pair_reads 3 q
        = Some (Inr ([Some (ReadPair ?a1 ?b1), Some (ReadPair ?a2 ?b2), None],
                     q\<lparr>mLeft := l''\<rparr>))"
    by (simp add: pair_of_def)
  from p 1 q 2 show ?thesis by blast
qed

end
